theory Spec2Isabelle
  imports Complex_Main "HOL-Library.Monad_Syntax"
begin

section \<open>Conventions\<close>

text \<open>
  The development embeds the real-time watermarking library
  (\<^verbatim>\<open>audiowmark_realtime.cc\<close> and \<^verbatim>\<open>limiter.cc\<close>) in HOL.

  \<^item> A \<^verbatim>\<open>float\<close> or \<^verbatim>\<open>double\<close> sample is a \<^typ>\<open>real\<close>: arithmetic is the exact
    one, without rounding. Every concrete input evaluated below uses values on which the
    binary floating-point operations of the source are exact as well.
  \<^item> \<^verbatim>\<open>size_t\<close> is the 64-bit unsigned type of the native build: a value is a
    \<^typ>\<open>nat\<close>, and a product is reduced modulo \<open>2 ^ 64\<close> where the source multiplies.
  \<^item> A \<^verbatim>\<open>std::string\<close> is a \<^typ>\<open>string\<close>, one \<^typ>\<open>char\<close> per byte.
\<close>

definition size_t_of_int :: "int \<Rightarrow> nat" where
  \<comment> \<open>the conversion of an \<^verbatim>\<open>int\<close> operand to \<^verbatim>\<open>size_t\<close>\<close>
  "size_t_of_int x = nat (x mod 2 ^ 64)"

definition size_t_mul :: "nat \<Rightarrow> nat \<Rightarrow> nat" where
  "size_t_mul a b = (a * b) mod 2 ^ 64"

section \<open>FrameBuffer\<close>

text \<open>
  \<^verbatim>\<open>class FrameBuffer { std::queue<float> buffer; int channels; ... }\<close>.
  The queue is a list whose head is the queue's front.
\<close>

record FrameBuffer =
  buffer :: "real list"
  channels :: int

definition FrameBuffer_new :: "int \<Rightarrow> FrameBuffer" where
  "FrameBuffer_new n_channels = \<lparr>buffer = [], channels = n_channels\<rparr>"

definition push_samples :: "FrameBuffer \<Rightarrow> real list \<Rightarrow> FrameBuffer" where
  "push_samples fb samples = fb\<lparr>buffer := buffer fb @ samples\<rparr>"

definition samples_needed :: "FrameBuffer \<Rightarrow> nat \<Rightarrow> nat" where
  \<comment> \<open>\<^verbatim>\<open>frame_size * channels\<close>, computed in \<^verbatim>\<open>size_t\<close>\<close>
  "samples_needed fb frame_size = size_t_mul frame_size (size_t_of_int (channels fb))"

definition pop_frame :: "FrameBuffer \<Rightarrow> nat \<Rightarrow> real list \<times> FrameBuffer" where
  "pop_frame fb frame_size =
     (if length (buffer fb) < samples_needed fb frame_size then ([], fb)
      else (take (samples_needed fb frame_size) (buffer fb),
            fb\<lparr>buffer := drop (samples_needed fb frame_size) (buffer fb)\<rparr>))"

definition has_frame :: "FrameBuffer \<Rightarrow> nat \<Rightarrow> bool" where
  "has_frame fb frame_size = (length (buffer fb) \<ge> samples_needed fb frame_size)"

definition size_fb :: "FrameBuffer \<Rightarrow> nat" where
  "size_fb fb = length (buffer fb)"

definition clear :: "FrameBuffer \<Rightarrow> FrameBuffer" where
  "clear fb = fb\<lparr>buffer := []\<rparr>"

text \<open>
  The loop every caller runs after a push:
  \<^verbatim>\<open>while (fb.has_frame(n)) { frame = fb.pop_frame(n); ... }\<close>.
  It collects the popped blocks in order. When \<^verbatim>\<open>n * channels\<close> is \<open>0\<close> the condition
  never becomes false and the loop does not return: the result is \<open>None\<close>.
\<close>

partial_function (option) pop_all :: "FrameBuffer \<Rightarrow> nat \<Rightarrow> (real list list \<times> FrameBuffer) option" where
  "pop_all fb n =
     (if has_frame fb n
      then (case pop_frame fb n of
              (frame, fb') \<Rightarrow> pop_all fb' n \<bind> (\<lambda>(frames, fb''). Some (frame # frames, fb'')))
      else Some ([], fb))"

text \<open>Pushing chunk after chunk, popping every available block after each push.\<close>

fun push_chunks :: "FrameBuffer \<Rightarrow> nat \<Rightarrow> real list list \<Rightarrow> (real list list \<times> FrameBuffer) option" where
  "push_chunks fb n [] = Some ([], fb)"
| "push_chunks fb n (chunk # chunks) =
     pop_all (push_samples fb chunk) n \<bind> (\<lambda>(frames, fb').
       push_chunks fb' n chunks \<bind> (\<lambda>(frames', fb''). Some (frames @ frames', fb'')))"

subsection \<open>Properties of the FrameBuffer\<close>

lemma pop_all_no_frame: "\<not> has_frame fb n \<Longrightarrow> pop_all fb n = Some ([], fb)"
  by (subst pop_all.simps) simp

lemma pop_all_frame:
  "has_frame fb n \<Longrightarrow>
   pop_all fb n =
     pop_all (fb\<lparr>buffer := drop (samples_needed fb n) (buffer fb)\<rparr>) n
       \<bind> (\<lambda>(frames, fb''). Some (take (samples_needed fb n) (buffer fb) # frames, fb''))"
  by (subst pop_all.simps) (simp add: pop_frame_def has_frame_def)

lemma samples_needed_update [simp]:
  "samples_needed (fb\<lparr>buffer := xs\<rparr>) n = samples_needed fb n"
  by (simp add: samples_needed_def)

lemma samples_needed_push [simp]:
  "samples_needed (push_samples fb xs) n = samples_needed fb n"
  by (simp add: push_samples_def)

text \<open>
  A buffer that holds \<open>ys @ zs\<close>, where \<open>zs\<close> is shorter than a block, is emptied block by
  block down to a remainder that depends on the whole content only.
\<close>

lemma pop_all_append:
  assumes "0 < samples_needed fb n"
  shows "pop_all (fb\<lparr>buffer := xs @ ys\<rparr>) n =
         pop_all (fb\<lparr>buffer := xs\<rparr>) n \<bind> (\<lambda>(frames, fb').
           pop_all (fb'\<lparr>buffer := buffer fb' @ ys\<rparr>) n \<bind> (\<lambda>(frames', fb'').
             Some (frames @ frames', fb'')))"
proof (induction "length xs" arbitrary: xs rule: less_induct)
  case less
  let ?k = "samples_needed fb n"
  show ?case
  proof (cases "?k \<le> length xs")
    case False
    then have "\<not> has_frame (fb\<lparr>buffer := xs\<rparr>) n"
      by (simp add: has_frame_def)
    then show ?thesis
      by (simp add: pop_all_no_frame option.case_eq_if split: prod.splits)
  next
    case True
    then have hf: "has_frame (fb\<lparr>buffer := xs\<rparr>) n"
      and hf': "has_frame (fb\<lparr>buffer := xs @ ys\<rparr>) n"
      by (simp_all add: has_frame_def)
    from True assms have shorter: "length (drop ?k xs) < length xs"
      by simp
    have "pop_all (fb\<lparr>buffer := xs @ ys\<rparr>) n =
          pop_all (fb\<lparr>buffer := drop ?k xs @ ys\<rparr>) n
            \<bind> (\<lambda>(frames, fb''). Some (take ?k xs # frames, fb''))"
      using pop_all_frame [OF hf'] True by simp
    also have "pop_all (fb\<lparr>buffer := drop ?k xs @ ys\<rparr>) n =
          pop_all (fb\<lparr>buffer := drop ?k xs\<rparr>) n \<bind> (\<lambda>(frames, fb').
            pop_all (fb'\<lparr>buffer := buffer fb' @ ys\<rparr>) n \<bind> (\<lambda>(frames', fb'').
              Some (frames @ frames', fb'')))"
      by (rule less [OF shorter])
    finally show ?thesis
      using pop_all_frame [OF hf]
      by (simp add: split_def bind_assoc cong: Option.bind_cong)
  qed
qed

text \<open>
  With a positive block length the loop returns: it leaves less than a block, keeps the
  channel count, and the popped blocks followed by the remainder are the old content.
\<close>

lemma pop_all_total:
  assumes "0 < samples_needed fb n"
  shows "\<exists>frames fb'. pop_all fb n = Some (frames, fb') \<and> \<not> has_frame fb' n \<and>
           channels fb' = channels fb \<and> concat frames @ buffer fb' = buffer fb \<and>
           list_all (\<lambda>frame. length frame = samples_needed fb n) frames"
  using assms
proof (induction "length (buffer fb)" arbitrary: fb rule: less_induct)
  case less
  let ?k = "samples_needed fb n"
  show ?case
  proof (cases "has_frame fb n")
    case False
    then show ?thesis
      by (simp add: pop_all_no_frame)
  next
    case True
    let ?fb = "fb\<lparr>buffer := drop ?k (buffer fb)\<rparr>"
    from True less.prems have "length (buffer ?fb) < length (buffer fb)"
      by (simp add: has_frame_def)
    moreover have "0 < samples_needed ?fb n"
      using less.prems by simp
    ultimately obtain frames fb' where rest: "pop_all ?fb n = Some (frames, fb')"
      "\<not> has_frame fb' n" "channels fb' = channels ?fb"
      "concat frames @ buffer fb' = buffer ?fb"
      "list_all (\<lambda>frame. length frame = samples_needed ?fb n) frames"
      using less.hyps [of ?fb] by blast
    have "pop_all fb n = Some (take ?k (buffer fb) # frames, fb')"
      using pop_all_frame [OF True] rest(1) by simp
    moreover have "concat (take ?k (buffer fb) # frames) @ buffer fb' = buffer fb"
      using rest(4) by simp
    moreover have "length (take ?k (buffer fb)) = ?k"
      using True by (simp add: has_frame_def)
    ultimately show ?thesis
      using rest(2,3,5) by simp
  qed
qed

lemma push_chunks_general:
  assumes "0 < samples_needed fb n" and "\<not> has_frame fb n"
  shows "push_chunks fb n chunks = pop_all (push_samples fb (concat chunks)) n"
  using assms
proof (induction chunks arbitrary: fb)
  case Nil
  then show ?case
    by (simp add: push_samples_def pop_all_no_frame)
next
  case (Cons chunk chunks)
  let ?fb = "push_samples fb chunk"
  have pos: "0 < samples_needed ?fb n"
    using Cons.prems(1) by simp
  obtain frames fb' where first: "pop_all ?fb n = Some (frames, fb')"
    "\<not> has_frame fb' n" "channels fb' = channels ?fb"
    using pop_all_total [OF pos] by blast
  have same: "samples_needed fb' n = samples_needed fb n"
    using first(3) by (simp add: samples_needed_def push_samples_def)
  have "push_chunks fb' n chunks = pop_all (push_samples fb' (concat chunks)) n"
    using Cons.IH [of fb'] Cons.prems(1) first(2) same by simp
  then have "push_chunks fb n (chunk # chunks) =
        pop_all (fb'\<lparr>buffer := buffer fb' @ concat chunks\<rparr>) n
          \<bind> (\<lambda>(frames', fb''). Some (frames @ frames', fb''))"
    using first(1) by (simp add: push_samples_def)
  moreover have "pop_all (push_samples fb (concat (chunk # chunks))) n =
        pop_all (fb'\<lparr>buffer := buffer fb' @ concat chunks\<rparr>) n
          \<bind> (\<lambda>(frames', fb''). Some (frames @ frames', fb''))"
    using pop_all_append [OF Cons.prems(1), of "buffer fb @ chunk" "concat chunks"] first(1)
    by (simp add: push_samples_def)
  ultimately show ?case
    by simp
qed

text \<open>
  Claim C10. When fewer than \<^verbatim>\<open>frame_size * channels\<close> samples are buffered,
  \<^verbatim>\<open>has_frame\<close> is false and \<^verbatim>\<open>pop_frame\<close> returns the empty vector and leaves the
  buffer as it was: the early return of the source, before any read of the queue.
\<close>

theorem pop_frame_insufficient:
  "length (buffer fb) < samples_needed fb frame_size \<Longrightarrow>
   pop_frame fb frame_size = ([], fb) \<and> \<not> has_frame fb frame_size"
  by (simp add: pop_frame_def has_frame_def)

theorem pop_frame_insufficient_witness:
  "length (buffer \<lparr>buffer = [1, 2, 3], channels = 2\<rparr>)
     < samples_needed \<lparr>buffer = [1, 2, 3], channels = 2\<rparr> 2 \<and>
   pop_frame \<lparr>buffer = [1, 2, 3], channels = 2\<rparr> 2 = ([], \<lparr>buffer = [1, 2, 3], channels = 2\<rparr>) \<and>
   \<not> has_frame \<lparr>buffer = [1, 2, 3], channels = 2\<rparr> 2"
proof -
  have h: "length (buffer \<lparr>buffer = [1, 2, 3], channels = 2\<rparr>)
             < samples_needed \<lparr>buffer = [1, 2, 3], channels = 2\<rparr> 2"
    by (simp add: samples_needed_def size_t_mul_def size_t_of_int_def)
  show ?thesis
    using h pop_frame_insufficient [OF h] by simp
qed

text \<open>
  Claim C8. Start from a fresh FrameBuffer and a block length \<^verbatim>\<open>n * channels\<close> that is
  not \<open>0\<close>. Pushing the chunks one by one, popping every available block after each push,
  returns, and it returns the very blocks (and leaves the very remainder) that pushing the
  concatenation of the chunks at once and popping afterwards does.
\<close>

theorem push_chunks_eq_push_all:
  assumes "0 < samples_needed (FrameBuffer_new ch) n"
  shows "\<exists>frames fb'.
           push_chunks (FrameBuffer_new ch) n chunks = Some (frames, fb') \<and>
           pop_all (push_samples (FrameBuffer_new ch) (concat chunks)) n = Some (frames, fb')"
proof -
  let ?fb = "FrameBuffer_new ch"
  have "\<not> has_frame ?fb n"
    using assms by (simp add: has_frame_def FrameBuffer_new_def)
  then have eq: "push_chunks ?fb n chunks = pop_all (push_samples ?fb (concat chunks)) n"
    using assms by (rule push_chunks_general [rotated])
  have "0 < samples_needed (push_samples ?fb (concat chunks)) n"
    using assms by simp
  from pop_all_total [OF this] eq show ?thesis
    by auto
qed

theorem push_chunks_eq_push_all_witness:
  "0 < samples_needed (FrameBuffer_new 1) 2 \<and>
   push_chunks (FrameBuffer_new 1) 2 [[1, 2, 3], [4], [5]]
     = Some ([[1, 2], [3, 4]], \<lparr>buffer = [5], channels = 1\<rparr>) \<and>
   pop_all (push_samples (FrameBuffer_new 1) (concat [[1, 2, 3], [4], [5]])) 2
     = Some ([[1, 2], [3, 4]], \<lparr>buffer = [5], channels = 1\<rparr>)"
proof -
  have sn: "samples_needed \<lparr>buffer = xs, channels = 1\<rparr> 2 = 2" for xs
    by (simp add: samples_needed_def size_t_mul_def size_t_of_int_def)
  have pos: "0 < samples_needed (FrameBuffer_new 1) 2"
    by (simp add: sn FrameBuffer_new_def)
  have run: "push_chunks (FrameBuffer_new 1) 2 [[1, 2, 3], [4], [5]]
               = Some ([[1, 2], [3, 4]], \<lparr>buffer = [5], channels = 1\<rparr>)"
    by (simp add: FrameBuffer_new_def push_samples_def pop_all_frame pop_all_no_frame
        has_frame_def sn)
  from push_chunks_eq_push_all [OF pos, of "[[1, 2, 3], [4], [5]]"] run pos show ?thesis
    by auto
qed

section \<open>Payload codec\<close>

text \<open>
  \<^verbatim>\<open>std::isxdigit\<close> and \<^verbatim>\<open>isspace\<close> in the default C locale, on the byte's value. A byte
  above 127 is neither (a negative \<^verbatim>\<open>char\<close> argument is outside the functions' contract;
  the C library in use answers false).
\<close>

definition isxdigit :: "char \<Rightarrow> bool" where
  "isxdigit c = (let n = of_char c :: nat in
     (48 \<le> n \<and> n \<le> 57) \<or> (65 \<le> n \<and> n \<le> 70) \<or> (97 \<le> n \<and> n \<le> 102))"

definition isspace :: "char \<Rightarrow> bool" where
  "isspace c = (let n = of_char c :: nat in n = 32 \<or> (9 \<le> n \<and> n \<le> 13))"

text \<open>The value of a hex digit; it is applied to hex digits only.\<close>

definition xdigit_value :: "char \<Rightarrow> nat" where
  "xdigit_value c = (let n = of_char c :: nat in
     if 48 \<le> n \<and> n \<le> 57 then n - 48
     else if 97 \<le> n \<and> n \<le> 102 then n - 87
     else n - 55)"

text \<open>
  \<^verbatim>\<open>std::stoi (str, nullptr, 16)\<close>, that is \<^verbatim>\<open>strtol\<close> in base 16 followed by the range
  check of \<^verbatim>\<open>int\<close>: leading white space is skipped, one sign and one \<^verbatim>\<open>0x\<close> prefix are
  accepted, and the longest run of hex digits that follows is the number. Characters
  after that run are ignored. No digit at all raises \<^verbatim>\<open>std::invalid_argument\<close>, a value
  outside \<^verbatim>\<open>int\<close> raises \<^verbatim>\<open>std::out_of_range\<close>.
\<close>

datatype stoi_error = invalid_argument | out_of_range

definition skip_sign :: "string \<Rightarrow> bool \<times> string" where
  "skip_sign s = (case s of
      [] \<Rightarrow> (False, s)
    | c # r \<Rightarrow> if c = CHR ''-'' then (True, r) else if c = CHR ''+'' then (False, r) else (False, s))"

definition skip_hex_prefix :: "string \<Rightarrow> string" where
  "skip_hex_prefix s = (case s of
      z # x # d # r \<Rightarrow>
        if z = CHR ''0'' \<and> (x = CHR ''x'' \<or> x = CHR ''X'') \<and> isxdigit d then d # r else s
    | _ \<Rightarrow> s)"

definition stoi16 :: "string \<Rightarrow> stoi_error + int" where
  "stoi16 str =
     (let (negative, s) = skip_sign (dropWhile isspace str);
          digits = takeWhile isxdigit (skip_hex_prefix s);
          magnitude = foldl (\<lambda>acc c. 16 * acc + xdigit_value c) 0 digits;
          v = (if negative then - int magnitude else int magnitude)
      in if digits = [] then Inl invalid_argument
         else if v < - (2 ^ 31) \<or> 2 ^ 31 \<le> v then Inl out_of_range
         else Inr v)"

text \<open>
  Modelled from the spec: \<^verbatim>\<open>string_printf\<close> (\<^verbatim>\<open>utils.cc\<close> is not among the sources), here
  at its only use, the format \<^verbatim>\<open>%02x\<close> on an \<^verbatim>\<open>unsigned char\<close>: two lower-case hex digits,
  the high nibble first.
\<close>

definition hex_digit :: "nat \<Rightarrow> char" where
  "hex_digit d = ''0123456789abcdef'' ! d"

definition string_printf_02x :: "nat \<Rightarrow> string" where
  "string_printf_02x n = [hex_digit (n div 16), hex_digit (n mod 16)]"

definition TextToHex :: "string \<Rightarrow> string" where
  "TextToHex text = concat (map (\<lambda>c. string_printf_02x (of_char c)) text)"

text \<open>
  \<^verbatim>\<open>HexToText\<close>: two characters at a time; a lone last character is skipped; an exception
  of \<^verbatim>\<open>std::stoi\<close> makes the result the empty string. \<^verbatim>\<open>static_cast<char>\<close> keeps the low
  byte.
\<close>

fun HexToText_loop :: "string \<Rightarrow> string \<Rightarrow> string" where
  "HexToText_loop (a # b # rest) text =
     (case stoi16 [a, b] of
        Inl e \<Rightarrow> []
      | Inr v \<Rightarrow> HexToText_loop rest (text @ [char_of v]))"
| "HexToText_loop rest text = text"

definition HexToText :: "string \<Rightarrow> string" where
  "HexToText hex = HexToText_loop hex []"

definition IsValidHexMessage :: "string \<Rightarrow> bool" where
  "IsValidHexMessage hex =
     (if hex = [] \<or> length hex mod 2 \<noteq> 0 then False else list_all isxdigit hex)"

text \<open>
  \<^verbatim>\<open>parse_payload\<close>: every failure returns the empty vector, which is also what the empty
  string gives; the caller takes an empty vector for a failed parse. The shift of the
  (possibly negative) \<^verbatim>\<open>int\<close> is arithmetic.
\<close>

definition byte_bits :: "int \<Rightarrow> int list" where
  "byte_bits byte_value = map (\<lambda>bit. (byte_value div 2 ^ bit) mod 2) [7, 6, 5, 4, 3, 2, 1, 0]"

fun parse_payload_loop :: "string \<Rightarrow> int list \<Rightarrow> int list" where
  "parse_payload_loop [] bitvec = bitvec"
| "parse_payload_loop [a] bitvec = []"
| "parse_payload_loop (a # b # rest) bitvec =
     (case stoi16 [a, b] of
        Inl e \<Rightarrow> []
      | Inr byte_value \<Rightarrow> parse_payload_loop rest (bitvec @ byte_bits byte_value))"

definition parse_payload :: "string \<Rightarrow> int list" where
  "parse_payload hex = (if hex = [] then [] else parse_payload_loop hex [])"

text \<open>\<^verbatim>\<open>std::isprint\<close> in the C locale: the printable ASCII characters, space included.\<close>

definition isprint :: "char \<Rightarrow> bool" where
  "isprint c = (let n = of_char c :: nat in 32 \<le> n \<and> n \<le> 126)"

subsection \<open>Properties of the codec\<close>

lemma nibble_cases:
  "d < (16::nat) \<Longrightarrow> d = 0 \<or> d = 1 \<or> d = 2 \<or> d = 3 \<or> d = 4 \<or> d = 5 \<or> d = 6 \<or> d = 7 \<or>
     d = 8 \<or> d = 9 \<or> d = 10 \<or> d = 11 \<or> d = 12 \<or> d = 13 \<or> d = 14 \<or> d = 15"
  by arith

lemma hex_digit_props:
  assumes "d < 16"
  shows "isxdigit (hex_digit d)" "\<not> isspace (hex_digit d)" "hex_digit d \<noteq> CHR ''-''"
    "hex_digit d \<noteq> CHR ''+''" "hex_digit d \<noteq> CHR ''x''" "hex_digit d \<noteq> CHR ''X''"
    "xdigit_value (hex_digit d) = d"
  using nibble_cases [OF assms]
  by (auto simp: hex_digit_def isxdigit_def isspace_def xdigit_value_def)

lemma isxdigit_props:
  assumes "isxdigit c"
  shows "\<not> isspace c" "c \<noteq> CHR ''-''" "c \<noteq> CHR ''+''" "xdigit_value c \<le> 15"
proof -
  show "\<not> isspace c"
    using assms by (auto simp: isxdigit_def isspace_def Let_def)
  show "c \<noteq> CHR ''-''"
    using assms by (auto simp: isxdigit_def)
  show "c \<noteq> CHR ''+''"
    using assms by (auto simp: isxdigit_def)
  show "xdigit_value c \<le> 15"
    using assms by (auto simp: isxdigit_def xdigit_value_def Let_def)
qed

lemma stoi16_two:
  assumes "isxdigit a" and "isxdigit b"
  shows "stoi16 [a, b] = Inr (int (16 * xdigit_value a + xdigit_value b))"
proof -
  have sign: "skip_sign (dropWhile isspace [a, b]) = (False, [a, b])"
    by (simp add: skip_sign_def isxdigit_props(1,2,3) [OF assms(1)])
  have pre: "skip_hex_prefix [a, b] = [a, b]"
    by (simp add: skip_hex_prefix_def)
  have digits: "takeWhile isxdigit [a, b] = [a, b]"
    by (simp add: assms)
  have val: "foldl (\<lambda>acc c. 16 * acc + xdigit_value c) 0 [a, b]
               = 16 * xdigit_value a + xdigit_value b"
    by simp
  have small: "16 * xdigit_value a + xdigit_value b < 256"
    using isxdigit_props(4) [OF assms(1)] isxdigit_props(4) [OF assms(2)] by linarith
  have range: "\<not> (int (16 * xdigit_value a + xdigit_value b) < - (2 ^ 31)
               \<or> 2 ^ 31 \<le> int (16 * xdigit_value a + xdigit_value b))"
    using small by simp
  show ?thesis
    unfolding stoi16_def sign pre digits val Let_def prod.case
    using range by simp
qed

lemma stoi16_printf:
  assumes "n < 256"
  shows "stoi16 (string_printf_02x n) = Inr (int n)"
proof -
  have a: "n div 16 < 16" and b: "n mod 16 < 16"
    using assms by simp_all
  have "16 * (n div 16) + n mod 16 = n"
    by simp
  then show ?thesis
    using stoi16_two [OF hex_digit_props(1) [OF a] hex_digit_props(1) [OF b]]
    by (simp only: string_printf_02x_def hex_digit_props(7) [OF a] hex_digit_props(7) [OF b])
qed

lemma HexToText_loop_TextToHex:
  "HexToText_loop (TextToHex M) text = text @ M"
proof (induction M arbitrary: "text")
  case Nil
  then show ?case by (simp add: TextToHex_def)
next
  case (Cons c M)
  have "of_char c < (256::nat)"
    by simp
  from stoi16_printf [OF this] have "stoi16 [hex_digit (of_char c div 16), hex_digit (of_char c mod 16)] = Inr (int (of_char c))"
    by (simp add: string_printf_02x_def)
  then show ?case
    using Cons.IH [of "text @ [c]"]
    by (simp add: TextToHex_def string_printf_02x_def)
qed
lemma stoi16_xdigits:
  assumes "isxdigit a" and "isxdigit b"
  shows "\<exists>v. stoi16 [a, b] = Inr v"
  using stoi16_two [OF assms] by simp

lemma length_byte_bits: "length (byte_bits v) = 8"
  by (simp add: byte_bits_def)

lemma parse_payload_loop_valid:
  "even (length h) \<Longrightarrow> list_all isxdigit h \<Longrightarrow>
   length (parse_payload_loop h bitvec) = length bitvec + 4 * length h"
proof (induction h bitvec rule: parse_payload_loop.induct)
  case (3 a b rest bitvec)
  then obtain v where "stoi16 [a, b] = Inr v"
    using stoi16_xdigits [of a b] by auto
  then show ?case
    using 3 by (simp add: length_byte_bits)
qed simp_all

lemma parse_payload_loop_odd:
  "odd (length h) \<Longrightarrow> parse_payload_loop h bitvec = []"
  by (induction h bitvec rule: parse_payload_loop.induct) (auto split: sum.splits)

text \<open>
  Claim C3, as amended. \<^verbatim>\<open>IsValidHexMessage\<close> holds exactly for the non-empty strings of
  even length made of hex digits. On every such string \<^verbatim>\<open>parse_payload\<close> succeeds, with
  four bits per character; on the empty string and on every string of odd length it
  fails (returns the empty vector).
\<close>

theorem IsValidHexMessage_parse_payload:
  "(IsValidHexMessage h \<longleftrightarrow> h \<noteq> [] \<and> even (length h) \<and> list_all isxdigit h) \<and>
   (IsValidHexMessage h \<longrightarrow> parse_payload h \<noteq> [] \<and> length (parse_payload h) = 4 * length h) \<and>
   (h = [] \<or> odd (length h) \<longrightarrow> parse_payload h = [])"
proof (intro conjI impI)
  show valid: "IsValidHexMessage h \<longleftrightarrow> h \<noteq> [] \<and> even (length h) \<and> list_all isxdigit h"
    by (auto simp: IsValidHexMessage_def)
  show "parse_payload h = []" if "h = [] \<or> odd (length h)"
    using that by (auto simp: parse_payload_def parse_payload_loop_odd)
  assume "IsValidHexMessage h"
  with valid have h: "h \<noteq> []" "even (length h)" "list_all isxdigit h"
    by simp_all
  from parse_payload_loop_valid [OF h(2,3), of "[]"] h(1)
  show "length (parse_payload h) = 4 * length h"
    by (simp add: parse_payload_def)
  with h(1) show "parse_payload h \<noteq> []"
    by auto
qed

theorem IsValidHexMessage_parse_payload_witness:
  "IsValidHexMessage ''48656c6c6f'' \<and> ''48656c6c6f'' \<noteq> [] \<and> even (length ''48656c6c6f'') \<and>
   parse_payload ''48656c6c6f'' \<noteq> [] \<and> length (parse_payload ''48656c6c6f'') = 40 \<and>
   odd (length ''486'') \<and> parse_payload ''486'' = []"
proof -
  have v: "IsValidHexMessage ''48656c6c6f''"
    by (simp add: IsValidHexMessage_def isxdigit_def)
  have o: "odd (length ''486'')"
    by simp
  show ?thesis
    using v o IsValidHexMessage_parse_payload [of "''48656c6c6f''"]
      IsValidHexMessage_parse_payload [of "''486''"]
    by simp
qed

text \<open>
  Claim C3 as stated fails twice. The empty string has even length and only hex digits,
  yet \<^verbatim>\<open>IsValidHexMessage\<close> rejects it. And \<^verbatim>\<open>parse_payload\<close> accepts \<^verbatim>\<open>"1g"\<close>, which
  \<^verbatim>\<open>IsValidHexMessage\<close> rejects: \<^verbatim>\<open>std::stoi\<close> reads the \<^verbatim>\<open>1\<close> and ignores the rest.
\<close>

theorem IsValidHexMessage_counterexample:
  "\<not> (IsValidHexMessage '''' \<longleftrightarrow> even (length '''') \<and> list_all isxdigit '''') \<and>
   \<not> (parse_payload ''1g'' = [] \<longleftrightarrow> \<not> IsValidHexMessage ''1g'')"
  by (simp add: IsValidHexMessage_def parse_payload_def stoi16_def skip_sign_def
      skip_hex_prefix_def isxdigit_def isspace_def xdigit_value_def byte_bits_def)

text \<open>
  Claim C4. For every string \<open>M\<close> of printable ASCII characters,
  \<^verbatim>\<open>HexToText (TextToHex (M))\<close> is \<open>M\<close>. (The lemma above shows it for every byte string.)
\<close>

theorem HexToText_TextToHex:
  "list_all isprint M \<Longrightarrow> HexToText (TextToHex M) = M"
  using HexToText_loop_TextToHex [of M "[]"] by (simp add: HexToText_def)

theorem HexToText_TextToHex_witness:
  "list_all isprint ''Hello World!'' \<and> TextToHex ''Hello World!'' = ''48656c6c6f20576f726c6421'' \<and>
   HexToText ''48656c6c6f20576f726c6421'' = ''Hello World!''"
proof -
  have p: "list_all isprint ''Hello World!''"
    by (simp add: isprint_def)
  have t: "TextToHex ''Hello World!'' = ''48656c6c6f20576f726c6421''"
    by (simp add: TextToHex_def string_printf_02x_def hex_digit_def)
  show ?thesis
    using p t HexToText_TextToHex [OF p] by simp
qed

text \<open>
  The round trip does not need printable characters: it holds for every byte string,
  the NUL byte included.
\<close>

theorem HexToText_TextToHex_bytes: "HexToText (TextToHex M) = M"
  using HexToText_loop_TextToHex [of M "[]"] by (simp add: HexToText_def)

section \<open>Limiter\<close>

text \<open>
  \<^verbatim>\<open>class Limiter\<close> of \<^verbatim>\<open>limiter.cc\<close>: the look-ahead length, the decay coefficient, the
  smoothed gain \<^verbatim>\<open>maximum\<close> and the two parallel histories.
\<close>

record Limiter =
  look_ahead :: nat
  decay_coeff :: real
  maximum :: real
  buffer :: "real list"
  max_buffer :: "real list"

text \<open>
  The constructor. \<^verbatim>\<open>look_ahead = sample_rate * 0.005\<close> converts a \<^verbatim>\<open>double\<close> to
  \<^verbatim>\<open>uint\<close>, which drops the fraction. (For an \<^verbatim>\<open>int\<close> sample rate the rounded double
  product has the integer part of the exact product: the double nearest to \<open>0.005\<close> exceeds
  it by about two parts in \<open>10 ^ 17\<close>, and an exact product that is not an integer is at
  least \<open>1 / 200\<close> away from one.) The failed \<^verbatim>\<open>assert (look_ahead >= 1)\<close> is \<open>None\<close>.

  Modelled from the spec: the initial value \<open>1\<close> of \<^verbatim>\<open>maximum\<close>, a member initialiser of
  \<^verbatim>\<open>limiter.hh\<close>, which is not among the sources ("smoothed gain, initialized to 1.0").
\<close>

definition Limiter_new :: "int \<Rightarrow> Limiter option" where
  "Limiter_new sample_rate =
     (let la = nat \<lfloor>real_of_int sample_rate * 0.005\<rfloor> in
      if la \<ge> 1
      then Some \<lparr>look_ahead = la,
                 decay_coeff = exp (ln 0.5 / (real_of_int sample_rate * 0.05)),
                 maximum = 1, buffer = [], max_buffer = []\<rparr>
      else None)"

text \<open>
  \<^verbatim>\<open>Limiter::process\<close>. \<open>ramp_step\<close> is the body of the loop over \<open>j\<close>, \<open>peak_step\<close> the
  body of the loop over \<open>i\<close>, \<open>emit_step\<close> the body of the output loop. The guard
  \<^verbatim>\<open>int (i) - int (j) > 0\<close> keeps every write inside the vector.
\<close>

definition ramp_step :: "nat \<Rightarrow> real list \<Rightarrow> nat \<Rightarrow> nat \<Rightarrow> real list \<Rightarrow> real list" where
  "ramp_step la buf i j mb =
     (if int i - int j > 0
      then (let alpha = real j / real la
            in mb[i - j := max (mb ! (i - j)) (\<bar>buf ! i\<bar> * (1 - alpha) + 1 * alpha)])
      else mb)"

definition peak_step :: "nat \<Rightarrow> real list \<Rightarrow> nat \<Rightarrow> real list \<Rightarrow> real list" where
  "peak_step la buf i mb =
     (if \<bar>buf ! i\<bar> > 1 then fold (ramp_step la buf i) [0..<la] mb else mb)"

definition emit_step :: "real \<Rightarrow> real list \<Rightarrow> real list \<Rightarrow> nat \<Rightarrow> real \<times> real list \<Rightarrow> real \<times> real list" where
  "emit_step decay buf mb i st =
     (case st of (mx, out) \<Rightarrow>
        (let m1 = mx * decay + mb ! i * (1 - decay);
             m2 = (if m1 < mb ! i then mb ! i else m1)
         in (m2, out @ [buf ! i / m2])))"

definition process :: "Limiter \<Rightarrow> real list \<Rightarrow> real list \<times> Limiter" where
  "process l samples =
     (let buf = buffer l @ samples;
          mb0 = max_buffer l @ replicate (length samples) 1;
          mb = fold (peak_step (look_ahead l) buf) [0..<length buf] mb0
      in if length buf > look_ahead l
         then (let todo = length buf - look_ahead l;
                   (mx, out) = fold (emit_step (decay_coeff l) buf mb) [0..<todo] (maximum l, [])
               in (out, l\<lparr>maximum := mx, buffer := drop todo buf, max_buffer := drop todo mb\<rparr>))
         else ([], l\<lparr>buffer := buf, max_buffer := mb\<rparr>))"

text \<open>A stream fed to the limiter in chunks, the outputs concatenated.\<close>

fun process_chunks :: "Limiter \<Rightarrow> real list list \<Rightarrow> real list \<times> Limiter" where
  "process_chunks l [] = ([], l)"
| "process_chunks l (chunk # chunks) =
     (case process l chunk of (out, l') \<Rightarrow>
        (case process_chunks l' chunks of (outs, l'') \<Rightarrow> (out @ outs, l'')))"

subsection \<open>Properties of the limiter\<close>

lemma look_ahead_floor: "nat \<lfloor>real_of_int sr * 0.005\<rfloor> = nat (sr div 200)"
proof -
  have "real_of_int sr * 0.005 = real_of_int sr / real_of_int 200"
    by simp
  then show ?thesis
    by (simp only: floor_divide_of_int_eq)
qed

lemma upt2: "[0..<2] = [0, 1]" by (simp add: upt_rec)

lemma length_emit:
  "length (snd (fold (emit_step d buf mb) is st)) = length (snd st) + length is"
  by (induction "is" arbitrary: st) (auto simp: emit_step_def Let_def split: prod.splits)

lemma length_emit_out:
  "fold (emit_step d buf mb) is (mx, []) = (mx', out) \<Longrightarrow> length out = length is"
  using length_emit [of d buf mb "is" "(mx, [])"] by simp

lemma process_lengths:
  "length (fst (process l xs)) = (length (buffer l) + length xs) - look_ahead l"
  "length (buffer (snd (process l xs))) = min (look_ahead l) (length (buffer l) + length xs)"
  "look_ahead (snd (process l xs)) = look_ahead l"
  by (auto simp: process_def Let_def split: prod.splits dest: length_emit_out)

lemma process_chunks_length:
  "length (buffer l) \<le> look_ahead l \<Longrightarrow>
   length (fst (process_chunks l chunks))
     = (length (buffer l) + length (concat chunks)) - look_ahead l"
proof (induction chunks arbitrary: l)
  case Nil
  then show ?case by simp
next
  case (Cons chunk chunks)
  obtain out l' where p: "process l chunk = (out, l')"
    by (cases "process l chunk")
  have out: "length out = (length (buffer l) + length chunk) - look_ahead l"
    and buf: "length (buffer l') = min (look_ahead l) (length (buffer l) + length chunk)"
    and la: "look_ahead l' = look_ahead l"
    using process_lengths [of l chunk] p by simp_all
  have "length (buffer l') \<le> look_ahead l'"
    using buf la by simp
  from Cons.IH [OF this] have
    "length (fst (process_chunks l' chunks))
       = (length (buffer l') + length (concat chunks)) - look_ahead l"
    using la by simp
  then show ?case
    using p out buf by (auto split: prod.splits)
qed

text \<open>
  Claim C5. For a freshly constructed limiter and any split of the input into chunks,
  the number of emitted samples is the number of input samples minus \<^verbatim>\<open>look_ahead\<close>
  (in the natural numbers, so \<open>0\<close> while the input is not longer than \<^verbatim>\<open>look_ahead\<close>):
  the first \<^verbatim>\<open>look_ahead\<close> input samples produce no output.
\<close>

theorem Limiter_latency:
  assumes "Limiter_new sample_rate = Some l"
  shows "length (fst (process_chunks l chunks)) = length (concat chunks) - look_ahead l \<and>
         (length (concat chunks) \<le> look_ahead l \<longrightarrow> fst (process_chunks l chunks) = [])"
proof -
  have "buffer l = []"
    using assms by (auto simp: Limiter_new_def Let_def split: if_splits)
  then show ?thesis
    using process_chunks_length [of l chunks] by auto
qed

theorem Limiter_latency_witness:
  "Limiter_new 400
     = Some \<lparr>look_ahead = 2, decay_coeff = exp (ln 0.5 / 20), maximum = 1, buffer = [],
             max_buffer = []\<rparr> \<and>
   length (fst (process_chunks
       \<lparr>look_ahead = 2, decay_coeff = exp (ln 0.5 / 20), maximum = 1, buffer = [],
         max_buffer = []\<rparr> [[0.5], [0.25, 0.5], [0.5]])) = 2 \<and>
   length (concat [[0.5::real], [0.25, 0.5], [0.5]]) - 2 = 2 \<and>
   fst (process_chunks
       \<lparr>look_ahead = 2, decay_coeff = exp (ln 0.5 / 20), maximum = 1, buffer = [],
         max_buffer = []\<rparr> [[0.5], [0.25]]) = []"
proof -
  have n: "Limiter_new 400
     = Some \<lparr>look_ahead = 2, decay_coeff = exp (ln 0.5 / 20), maximum = 1, buffer = [],
             max_buffer = []\<rparr>"
    by (simp add: Limiter_new_def)
  show ?thesis
    using n Limiter_latency [OF n, of "[[0.5], [0.25, 0.5], [0.5]]"]
      Limiter_latency [OF n, of "[[0.5], [0.25]]"]
    by simp
qed

text \<open>
  Claim C6, as amended. For a sample rate of at least \<open>200\<close> the constructor succeeds
  and \<^verbatim>\<open>look_ahead\<close> is the floor of \<open>sample_rate * 0.005\<close>, that is
  \<open>sample_rate div 200\<close>; below \<open>200\<close> the assertion \<^verbatim>\<open>look_ahead >= 1\<close> fails.
\<close>

theorem Limiter_look_ahead:
  "(200 \<le> sample_rate \<longrightarrow>
      map_option look_ahead (Limiter_new sample_rate) = Some (nat \<lfloor>real_of_int sample_rate * 0.005\<rfloor>) \<and>
      nat \<lfloor>real_of_int sample_rate * 0.005\<rfloor> = nat (sample_rate div 200)) \<and>
   (sample_rate < 200 \<longrightarrow> Limiter_new sample_rate = None)"
proof -
  have "1 \<le> nat (sample_rate div 200)" if "200 \<le> sample_rate"
  proof -
    from that have "1 \<le> sample_rate div 200" by presburger
    then show ?thesis by simp
  qed
  moreover have "nat (sample_rate div 200) = 0" if "sample_rate < 200"
  proof -
    from that have "sample_rate div 200 \<le> 0" by presburger
    then show ?thesis by simp
  qed
  ultimately show ?thesis
    unfolding Limiter_new_def Let_def look_ahead_floor by auto
qed

theorem Limiter_look_ahead_witness:
  "(200::int) \<le> 44100 \<and> map_option look_ahead (Limiter_new 44100) = Some 220 \<and>
   (199::int) < 200 \<and> Limiter_new 199 = None"
  using Limiter_look_ahead [of 44100] Limiter_look_ahead [of 199] by simp

text \<open>
  Claim C6 as stated fails at 44100 Hz: \<open>44100 * 0.005 = 220.5\<close>, the constructor
  stores \<open>220\<close>, the ceiling is \<open>221\<close>.
\<close>

theorem Limiter_look_ahead_counterexample:
  "map_option look_ahead (Limiter_new 44100) = Some 220 \<and>
   nat \<lceil>real_of_int 44100 * 0.005\<rceil> = 221"
  by (simp add: Limiter_new_def)

text \<open>
  Claim C2 fails on the code. The guard \<^verbatim>\<open>int (i) - int (j) > 0\<close> skips index \<open>0\<close>, so the
  gain ceiling of the very first sample of a stream is never raised: with a look-ahead of
  one sample (200 Hz), the input \<open>2.0, 0.0\<close> emits \<open>2.0\<close>, twice the ceiling \<open>1\<close>.
  Every later sample is limited, as the last subsection of this section shows.
\<close>

theorem process_first_sample_unlimited:
  "map_option (\<lambda>l. fst (process l [2, 0])) (Limiter_new 200) = Some [2]"
  by (simp add: Limiter_new_def process_def peak_step_def ramp_step_def emit_step_def upt2
      algebra_simps)

subsection \<open>The ceiling, the first sample apart\<close>

text \<open>
  Two invariants of the histories between calls: every stored gain ceiling is at least
  \<open>1\<close>, and (once a sample has been emitted) the oldest buffered sample is below its
  gain ceiling.
\<close>

definition gains_valid :: "Limiter \<Rightarrow> bool" where
  "gains_valid l \<longleftrightarrow>
     length (max_buffer l) = length (buffer l) \<and> list_all (\<lambda>g. 1 \<le> g) (max_buffer l)"

definition head_covered :: "Limiter \<Rightarrow> bool" where
  "head_covered l \<longleftrightarrow> buffer l \<noteq> [] \<and> \<bar>buffer l ! 0\<bar> \<le> max_buffer l ! 0"

lemma ramp_step_mono: "list_all2 (\<le>) mb (ramp_step la buf i j mb)"
proof -
  have "mb ! k \<le> mb[i - j := max (mb ! (i - j)) v] ! k" if "k < length mb" for k v
    using that by (cases "k = i - j") simp_all
  then show ?thesis
    by (simp add: ramp_step_def Let_def list_all2_conv_all_nth)
qed

lemma ramp_fold_mono: "list_all2 (\<le>) mb (fold (ramp_step la buf i) js mb)"
proof (induction js arbitrary: mb)
  case Nil
  then show ?case by (simp add: list_all2_conv_all_nth)
next
  case (Cons j js)
  have "list_all2 (\<le>) mb (ramp_step la buf i j mb)"
    by (rule ramp_step_mono)
  moreover have "list_all2 (\<le>) (ramp_step la buf i j mb) (fold (ramp_step la buf i) js (ramp_step la buf i j mb))"
    by (rule Cons.IH)
  ultimately show ?case
    using list_all2_trans [of "(\<le>)" "(\<le>)" "(\<le>) :: real \<Rightarrow> real \<Rightarrow> bool"] by fastforce
qed

lemma peak_step_mono: "list_all2 (\<le>) mb (peak_step la buf i mb)"
  by (cases "1 < \<bar>buf ! i\<bar>") (simp_all add: peak_step_def ramp_fold_mono list_all2_refl)

lemma peak_fold_mono: "list_all2 (\<le>) mb (fold (peak_step la buf) is mb)"
proof (induction "is" arbitrary: mb)
  case Nil
  then show ?case by (simp add: list_all2_conv_all_nth)
next
  case (Cons i "is")
  have "list_all2 (\<le>) mb (peak_step la buf i mb)"
    by (rule peak_step_mono)
  moreover have "list_all2 (\<le>) (peak_step la buf i mb) (fold (peak_step la buf) is (peak_step la buf i mb))"
    by (rule Cons.IH)
  ultimately show ?case
    using list_all2_trans [of "(\<le>)" "(\<le>)" "(\<le>) :: real \<Rightarrow> real \<Rightarrow> bool"] by fastforce
qed

lemma peak_step_covers:
  assumes "0 < la" and "0 < i" and "i < length mb" and "1 < \<bar>buf ! i\<bar>"
  shows "\<bar>buf ! i\<bar> \<le> peak_step la buf i mb ! i"
proof -
  have upt: "[0..<la] = 0 # [1..<la]"
    using assms(1) by (simp add: upt_conv_Cons)
  let ?mb = "ramp_step la buf i 0 mb"
  have first: "\<bar>buf ! i\<bar> \<le> ?mb ! i"
    using assms(2,3) by (simp add: ramp_step_def)
  have "list_all2 (\<le>) ?mb (fold (ramp_step la buf i) [1..<la] ?mb)"
    by (rule ramp_fold_mono)
  moreover have "i < length ?mb"
    using assms(2,3) by (simp add: ramp_step_def)
  ultimately have "?mb ! i \<le> fold (ramp_step la buf i) [1..<la] ?mb ! i"
    by (simp add: list_all2_conv_all_nth)
  then show ?thesis
    using first assms(4) by (simp add: peak_step_def upt)
qed

lemma peak_fold_covers:
  assumes "0 < la" and "0 < i" and "i < length mb" and "1 < \<bar>buf ! i\<bar>" and "i \<in> set is"
  shows "\<bar>buf ! i\<bar> \<le> fold (peak_step la buf) is mb ! i"
  using assms(3,5)
proof (induction "is" arbitrary: mb)
  case Nil
  then show ?case by simp
next
  case (Cons a "is")
  let ?mb = "peak_step la buf a mb"
  have len: "length ?mb = length mb"
    using peak_step_mono [of mb la buf a] by (simp add: list_all2_conv_all_nth)
  show ?case
  proof (cases "a = i")
    case True
    have "\<bar>buf ! i\<bar> \<le> ?mb ! i"
      using peak_step_covers [OF assms(1,2) Cons.prems(1) assms(4)] True by simp
    moreover have "?mb ! i \<le> fold (peak_step la buf) is ?mb ! i"
      using peak_fold_mono [of ?mb la buf "is"] Cons.prems(1) len
      by (simp add: list_all2_conv_all_nth)
    ultimately show ?thesis by simp
  next
    case False
    then have "i \<in> set is"
      using Cons.prems(2) by simp
    from Cons.IH [of ?mb, OF _ this] Cons.prems(1) len show ?thesis
      by simp
  qed
qed


lemma peak_pass:
  assumes "0 < la" and "length mb0 = length buf" and "list_all (\<lambda>g. 1 \<le> g) mb0"
  shows "length (fold (peak_step la buf) [0..<length buf] mb0) = length buf"
    and "list_all (\<lambda>g. 1 \<le> g) (fold (peak_step la buf) [0..<length buf] mb0)"
    and "\<And>k. k < length buf \<Longrightarrow> mb0 ! k \<le> fold (peak_step la buf) [0..<length buf] mb0 ! k"
    and "\<And>k. 0 < k \<Longrightarrow> k < length buf \<Longrightarrow>
            \<bar>buf ! k\<bar> \<le> fold (peak_step la buf) [0..<length buf] mb0 ! k"
proof -
  let ?mb = "fold (peak_step la buf) [0..<length buf] mb0"
  have mono: "list_all2 (\<le>) mb0 ?mb"
    by (rule peak_fold_mono)
  then show len: "length ?mb = length buf"
    using assms(2) by (simp add: list_all2_conv_all_nth)
  show up: "mb0 ! k \<le> ?mb ! k" if "k < length buf" for k
    using mono that assms(2) by (simp add: list_all2_conv_all_nth)
  have one: "1 \<le> mb0 ! k" if "k < length buf" for k
    using assms(2,3) that by (simp add: list_all_length)
  show "list_all (\<lambda>g. 1 \<le> g) ?mb"
    unfolding list_all_length
  proof (intro allI impI)
    fix k assume "k < length ?mb"
    then have "k < length buf" using len by simp
    from one [OF this] up [OF this] show "1 \<le> ?mb ! k" by simp
  qed
  show "\<bar>buf ! k\<bar> \<le> ?mb ! k" if "0 < k" and "k < length buf" for k
  proof (cases "1 < \<bar>buf ! k\<bar>")
    case True
    from that(2) have "k < length mb0" "k \<in> set [0..<length buf]"
      using assms(2) by simp_all
    from peak_fold_covers [OF assms(1) that(1) this(1) True this(2)] show ?thesis .
  next
    case False
    then show ?thesis
      using one [OF that(2)] up [OF that(2)] by simp
  qed
qed

lemma emit_fold:
  "\<exists>ys. snd (fold (emit_step d buf mb) is (mx, out0)) = out0 @ ys \<and> length ys = length is \<and>
     (\<forall>t<length is. \<exists>m. mb ! (is ! t) \<le> m \<and> ys ! t = buf ! (is ! t) / m)"
proof (induction "is" arbitrary: mx out0)
  case Nil
  then show ?case by simp
next
  case (Cons i "is")
  obtain m2 where step: "emit_step d buf mb i (mx, out0) = (m2, out0 @ [buf ! i / m2])"
    and big: "mb ! i \<le> m2"
    by (simp add: emit_step_def Let_def)
  from Cons.IH [of m2 "out0 @ [buf ! i / m2]"] obtain ys where
    ys: "snd (fold (emit_step d buf mb) is (m2, out0 @ [buf ! i / m2])) = (out0 @ [buf ! i / m2]) @ ys"
      "length ys = length is"
      "\<forall>t<length is. \<exists>m. mb ! (is ! t) \<le> m \<and> ys ! t = buf ! (is ! t) / m"
    by blast
  have "\<exists>m. mb ! ((i # is) ! t) \<le> m \<and> ((buf ! i / m2) # ys) ! t = buf ! ((i # is) ! t) / m"
    if "t < length (i # is)" for t
  proof (cases t)
    case 0
    then show ?thesis using big by auto
  next
    case (Suc t')
    then show ?thesis using ys(3) that by simp
  qed
  then show ?case
    using step ys(1,2) by (intro exI [of _ "(buf ! i / m2) # ys"]) simp
qed

lemma bounded_quotient:
  fixes x g m :: real
  assumes "1 \<le> g" and "\<bar>x\<bar> \<le> g" and "g \<le> m"
  shows "\<bar>x / m\<bar> \<le> 1"
proof -
  have "0 < m" and "\<bar>x\<bar> \<le> m"
    using assms by simp_all
  then show ?thesis
    by (simp add: abs_divide)    
qed


lemma process_emitting:
  assumes "look_ahead l < length (buffer l @ xs)"
  shows "process l xs =
    (snd (fold (emit_step (decay_coeff l) (buffer l @ xs)
             (fold (peak_step (look_ahead l) (buffer l @ xs)) [0..<length (buffer l @ xs)]
                (max_buffer l @ replicate (length xs) 1)))
           [0..<length (buffer l @ xs) - look_ahead l] (maximum l, [])),
     l\<lparr>maximum := fst (fold (emit_step (decay_coeff l) (buffer l @ xs)
             (fold (peak_step (look_ahead l) (buffer l @ xs)) [0..<length (buffer l @ xs)]
                (max_buffer l @ replicate (length xs) 1)))
           [0..<length (buffer l @ xs) - look_ahead l] (maximum l, [])),
       buffer := drop (length (buffer l @ xs) - look_ahead l) (buffer l @ xs),
       max_buffer := drop (length (buffer l @ xs) - look_ahead l)
         (fold (peak_step (look_ahead l) (buffer l @ xs)) [0..<length (buffer l @ xs)]
            (max_buffer l @ replicate (length xs) 1))\<rparr>)"
  using assms by (simp add: process_def Let_def split_def)

lemma process_filling:
  assumes "\<not> look_ahead l < length (buffer l @ xs)"
  shows "process l xs =
    ([], l\<lparr>buffer := buffer l @ xs,
           max_buffer := fold (peak_step (look_ahead l) (buffer l @ xs)) [0..<length (buffer l @ xs)]
              (max_buffer l @ replicate (length xs) 1)\<rparr>)"
  using assms by (simp add: process_def Let_def)

lemma head_covered_drop:
  assumes "n < length buf" and "length mb = length buf" and "\<bar>buf ! n\<bar> \<le> mb ! n"
  shows "head_covered (l\<lparr>maximum := m, buffer := drop n buf, max_buffer := drop n mb\<rparr>)"
  using assms by (simp add: head_covered_def)

lemma process_bound:
  assumes la: "0 < look_ahead l" and valid: "gains_valid l"
  shows "gains_valid (snd (process l xs))"
    and "\<And>i. 0 < i \<Longrightarrow> i < length (fst (process l xs)) \<Longrightarrow> \<bar>fst (process l xs) ! i\<bar> \<le> 1"
    and "fst (process l xs) \<noteq> [] \<Longrightarrow> head_covered (snd (process l xs))"
    and "head_covered l \<Longrightarrow> head_covered (snd (process l xs))"
    and "\<And>i. head_covered l \<Longrightarrow> i < length (fst (process l xs)) \<Longrightarrow> \<bar>fst (process l xs) ! i\<bar> \<le> 1"
proof -
  let ?buf = "buffer l @ xs"
  let ?start = "max_buffer l @ replicate (length xs) 1"
  let ?mb = "fold (peak_step (look_ahead l) ?buf) [0..<length ?buf] ?start"
  let ?todo = "length ?buf - look_ahead l"
  have len0: "length ?start = length ?buf" and one0: "list_all (\<lambda>g. 1 \<le> g) ?start"
    using valid by (auto simp: gains_valid_def list_all_iff)
  note pass = peak_pass [OF la len0 one0]
  have one: "1 \<le> ?mb ! k" if "k < length ?buf" for k
    using pass(1,2) that by (simp add: list_all_length)
  have head: "\<bar>?buf ! 0\<bar> \<le> ?mb ! 0" if "head_covered l"
  proof -
    from that valid have "buffer l \<noteq> []" "max_buffer l \<noteq> []" "\<bar>buffer l ! 0\<bar> \<le> max_buffer l ! 0"
      by (auto simp: head_covered_def gains_valid_def)
    then have "\<bar>?buf ! 0\<bar> \<le> ?start ! 0" and "0 < length ?buf"
      by (simp_all add: nth_append)
    with pass(3) [of 0] show ?thesis by simp
  qed
  have cover: "\<bar>?buf ! k\<bar> \<le> ?mb ! k" if "k < length ?buf" "0 < k \<or> head_covered l" for k
    using that pass(4) [of k] head by (cases k) auto
  show "gains_valid (snd (process l xs))"
  proof (cases "look_ahead l < length ?buf")
    case True
    have "list_all (\<lambda>g. 1 \<le> g) (drop ?todo ?mb)"
      using pass(2) by (auto simp: list_all_iff dest: in_set_dropD)
    then show ?thesis
      using pass(1) by (simp add: process_emitting [OF True] gains_valid_def)
  next
    case False
    then show ?thesis
      using pass(1,2) by (simp add: process_filling [OF False] gains_valid_def)
  qed
  show "head_covered (snd (process l xs))" if "fst (process l xs) \<noteq> []"
  proof (cases "look_ahead l < length ?buf")
    case True
    then have "0 < ?todo" and "?todo < length ?buf"
      using la by simp_all
    from cover [OF this(2)] this have "\<bar>?buf ! ?todo\<bar> \<le> ?mb ! ?todo"
      by simp
    from head_covered_drop [OF \<open>?todo < length ?buf\<close> pass(1) this] show ?thesis
      unfolding process_emitting [OF True] snd_conv .
  next
    case False
    then show ?thesis
      using that by (simp add: process_filling [OF False])
  qed
  show "head_covered (snd (process l xs))" if hc: "head_covered l"
  proof (cases "look_ahead l < length ?buf")
    case True
    then have "0 < ?todo" and "?todo < length ?buf"
      using la by simp_all
    from cover [OF this(2)] this have "\<bar>?buf ! ?todo\<bar> \<le> ?mb ! ?todo"
      by simp
    from head_covered_drop [OF \<open>?todo < length ?buf\<close> pass(1) this] show ?thesis
      unfolding process_emitting [OF True] snd_conv .
  next
    case False
    have "buffer l \<noteq> []"
      using hc by (simp add: head_covered_def)
    then show ?thesis
      using head [OF hc] by (simp add: process_filling [OF False] head_covered_def)
  qed
  have out: "\<bar>fst (process l xs) ! i\<bar> \<le> 1"
    if "i < length (fst (process l xs))" and "0 < i \<or> head_covered l" for i
  proof (cases "look_ahead l < length ?buf")
    case True
    obtain ys where ys: "fst (process l xs) = ys" "length ys = ?todo"
      "\<forall>t<?todo. \<exists>m. ?mb ! t \<le> m \<and> ys ! t = ?buf ! t / m"
      using emit_fold [of "decay_coeff l" ?buf ?mb "[0..<?todo]" "maximum l" "[]"]
      by (auto simp: process_emitting [OF True])
    from that(1) ys(1,2) have i: "i < ?todo" by simp
    then obtain m where m: "?mb ! i \<le> m" "ys ! i = ?buf ! i / m"
      using ys(3) by blast
    have "i < length ?buf" using i by simp
    from bounded_quotient [OF one [OF this] cover [OF this that(2)] m(1)] show ?thesis
      using ys(1) m(2) by simp
  next
    case False
    then show ?thesis
      using that(1) by (simp add: process_filling [OF False])
  qed
  show "\<bar>fst (process l xs) ! i\<bar> \<le> 1" if "0 < i" "i < length (fst (process l xs))" for i
    using out that by blast
  show "\<bar>fst (process l xs) ! i\<bar> \<le> 1" if "head_covered l" "i < length (fst (process l xs))" for i
    using out that by blast
qed


lemma fst_process_chunks_Cons:
  "fst (process_chunks l (chunk # chunks))
     = fst (process l chunk) @ fst (process_chunks (snd (process l chunk)) chunks)"
  by (simp split: prod.splits)

lemma process_chunks_bound_covered:
  "0 < look_ahead l \<Longrightarrow> gains_valid l \<Longrightarrow> head_covered l \<Longrightarrow>
   list_all (\<lambda>y. \<bar>y\<bar> \<le> 1) (fst (process_chunks l chunks))"
proof (induction chunks arbitrary: l)
  case Nil
  then show ?case by simp
next
  case (Cons chunk chunks)
  obtain out l' where p: "process l chunk = (out, l')"
    by (cases "process l chunk")
  have "list_all (\<lambda>y. \<bar>y\<bar> \<le> 1) out"
    using process_bound(5) [OF Cons.prems(1,2,3), of _ chunk] p by (simp add: list_all_length)
  moreover have "0 < look_ahead l'" "gains_valid l'" "head_covered l'"
    using process_lengths(3) [of l chunk] process_bound(1) [OF Cons.prems(1,2), of chunk]
      process_bound(4) [OF Cons.prems(1,2,3), of chunk] Cons.prems(1) p
    by simp_all
  ultimately show ?case
    using Cons.IH [of l'] p by (simp add: fst_process_chunks_Cons del: process_chunks.simps)
qed

lemma process_chunks_bound_tail:
  "0 < look_ahead l \<Longrightarrow> gains_valid l \<Longrightarrow>
   list_all (\<lambda>y. \<bar>y\<bar> \<le> 1) (tl (fst (process_chunks l chunks)))"
proof (induction chunks arbitrary: l)
  case Nil
  then show ?case by simp
next
  case (Cons chunk chunks)
  obtain out l' where p: "process l chunk = (out, l')"
    by (cases "process l chunk")
  have l': "0 < look_ahead l'" "gains_valid l'"
    using process_lengths(3) [of l chunk] process_bound(1) [OF Cons.prems(1,2), of chunk]
      Cons.prems(1) p
    by simp_all
  show ?case
  proof (cases "out = []")
    case True
    then show ?thesis
      using Cons.IH [OF l'] p by (simp add: fst_process_chunks_Cons del: process_chunks.simps)
  next
    case False
    then have "head_covered l'"
      using process_bound(3) [OF Cons.prems(1,2), of chunk] p by simp
    then have rest: "list_all (\<lambda>y. \<bar>y\<bar> \<le> 1) (fst (process_chunks l' chunks))"
      using process_chunks_bound_covered [OF l'] by simp
    have "\<bar>tl out ! i\<bar> \<le> 1" if "i < length (tl out)" for i
      using process_bound(2) [OF Cons.prems(1,2), of "Suc i" chunk] p that False
      by (simp add: nth_tl)
    then have "list_all (\<lambda>y. \<bar>y\<bar> \<le> 1) (tl out)"
      by (simp add: list_all_length)
    then show ?thesis
      using rest p False by (simp add: fst_process_chunks_Cons del: process_chunks.simps)
  qed
qed

text \<open>
  The limiter does hold the ceiling \<open>1\<close> for every emitted sample but the first of the
  stream, whatever the input and its split into chunks (over the reals: without the
  rounding of the floating-point operations).
\<close>

theorem Limiter_ceiling_after_first:
  assumes "Limiter_new sample_rate = Some l"
  shows "list_all (\<lambda>y. \<bar>y\<bar> \<le> 1) (tl (fst (process_chunks l chunks)))"
proof -
  have "1 \<le> look_ahead l" and "gains_valid l"
    using assms by (auto simp: Limiter_new_def Let_def gains_valid_def split: if_splits)
  then have "0 < look_ahead l" and "gains_valid l"
    by simp_all
  then show ?thesis
    by (rule process_chunks_bound_tail)
qed

theorem Limiter_ceiling_after_first_witness:
  "Limiter_new 200
     = Some \<lparr>look_ahead = 1, decay_coeff = exp (ln 0.5 / 10), maximum = 1, buffer = [],
             max_buffer = []\<rparr> \<and>
   list_all (\<lambda>y. \<bar>y\<bar> \<le> 1)
     (tl (fst (process_chunks
        \<lparr>look_ahead = 1, decay_coeff = exp (ln 0.5 / 10), maximum = 1, buffer = [],
          max_buffer = []\<rparr> [[2, 3], [0.5, 4]])))"
proof -
  have n: "Limiter_new 200
     = Some \<lparr>look_ahead = 1, decay_coeff = exp (ln 0.5 / 10), maximum = 1, buffer = [],
             max_buffer = []\<rparr>"
    by (simp add: Limiter_new_def)
  from n Limiter_ceiling_after_first [OF n, of "[[2, 3], [0.5, 4]]"] show ?thesis
    by simp
qed

section \<open>The embedder\<close>

text \<open>
  \<^verbatim>\<open>Params::frame_size\<close> and \<^verbatim>\<open>Params::frames_per_bit\<close> are constants of
  \<^verbatim>\<open>wmcommon.hh\<close>, which is not among the sources (a comment gives 1024 for the
  first): they are parameters of the model. \<^verbatim>\<open>struct Config\<close> is the library's.
\<close>

record Params =
  Params_frame_size :: nat
  Params_frames_per_bit :: nat

record Config =
  sample_rate :: int
  channels :: int
  strength :: real
  key :: string

text \<open>
  \<^verbatim>\<open>class SimpleWatermarkGen\<close>, with the members \<^verbatim>\<open>process_frame\<close> reads or writes (the
  FFT objects, the window and the random generator are never used by it). The two loops
  of \<^verbatim>\<open>process_frame\<close> run over the sample positions \<open>p = i / n_channels\<close> and the
  channels; the carrier is \<open>strength * sin phase\<close>, one value per position.
\<close>

record SimpleWatermarkGen =
  n_channels :: int
  sample_rate :: int
  bitvec :: "int list"
  frame_count :: nat
  strength :: real

definition SimpleWatermarkGen_new :: "int \<Rightarrow> int \<Rightarrow> int list \<Rightarrow> real \<Rightarrow> SimpleWatermarkGen" where
  "SimpleWatermarkGen_new n_ch rate message_bits wm_strength =
     \<lparr>n_channels = n_ch, sample_rate = rate, bitvec = message_bits, frame_count = 0,
      strength = wm_strength\<rparr>"

definition gen_process_frame ::
    "Params \<Rightarrow> SimpleWatermarkGen \<Rightarrow> real list \<Rightarrow> real list \<times> SimpleWatermarkGen" where
  "gen_process_frame P g input_samples =
     (if length input_samples \<noteq> size_t_mul (Params_frame_size P) (size_t_of_int (n_channels g))
      then (input_samples, g)
      else (let bit_index = (frame_count g div Params_frames_per_bit P) mod length (bitvec g);
                bit_value = bitvec g ! bit_index;
                freq = 1000 + real_of_int bit_value * 500;
                phase_step = 2 * pi * freq / real_of_int (sample_rate g);
                nc = nat (n_channels g);
                output_samples =
                  concat (map (\<lambda>p.
                      (let phase = real (frame_count g * Params_frame_size P + p) * phase_step;
                           watermark = strength g * sin phase
                       in map (\<lambda>ch. input_samples ! (p * nc + ch) + watermark) [0..<nc]))
                    [0..<length input_samples div nc])
            in (output_samples, g\<lparr>frame_count := frame_count g + 1\<rparr>)))"

definition gen_reset :: "SimpleWatermarkGen \<Rightarrow> SimpleWatermarkGen" where
  "gen_reset g = g\<lparr>frame_count := 0\<rparr>"

text \<open>
  \<^verbatim>\<open>class RealtimeWatermarker::Impl\<close>. A \<^verbatim>\<open>std::unique_ptr\<close> member is an option, \<open>None\<close>
  the null pointer. The constructor leaves the object uninitialised when the payload does
  not parse; \<open>None\<close> as its result is the failed assertion of the limiter's constructor.
  The limiter is the one of \<^verbatim>\<open>limiter.cc\<close>; the two setters called on it
  (\<^verbatim>\<open>set_block_size_ms\<close>, \<^verbatim>\<open>set_ceiling\<close>) are not among the sources.
\<close>

record Impl =
  config :: Config
  bitvec :: "int list"
  wm_gen :: "SimpleWatermarkGen option"
  frame_buffer :: "FrameBuffer option"
  output_buffer :: "FrameBuffer option"
  limiter :: "Limiter option"
  initialized :: bool

definition Impl_new :: "Config \<Rightarrow> string \<Rightarrow> Impl option" where
  "Impl_new cfg message_hex =
     (let bits = parse_payload message_hex;
          blank = \<lparr>config = cfg, bitvec = bits, wm_gen = None, frame_buffer = None,
                   output_buffer = None, limiter = None, initialized = False\<rparr>
      in if bits = [] then Some blank
         else (case Limiter_new (Config.sample_rate cfg) of
                 None \<Rightarrow> None
               | Some l \<Rightarrow>
                   Some (blank\<lparr>
                     frame_buffer := Some (FrameBuffer_new (Config.channels cfg)),
                     output_buffer := Some (FrameBuffer_new (Config.channels cfg)),
                     wm_gen := Some (SimpleWatermarkGen_new (Config.channels cfg)
                                       (Config.sample_rate cfg) bits (Config.strength cfg)),
                     limiter := Some l,
                     initialized := True\<rparr>)))"

text \<open>
  The loop of \<^verbatim>\<open>Impl::process_frame\<close>: while a block is available, pop it, watermark
  it, limit it, queue the result. \<open>None\<close> is a loop that never ends (a block length of
  \<open>0\<close>) and, in \<open>impl_process_frame\<close>, the dereference of a null pointer.
\<close>

partial_function (option) process_blocks ::
    "Params \<Rightarrow> FrameBuffer \<Rightarrow> SimpleWatermarkGen \<Rightarrow> Limiter \<Rightarrow> FrameBuffer
      \<Rightarrow> (FrameBuffer \<times> SimpleWatermarkGen \<times> Limiter \<times> FrameBuffer) option" where
  "process_blocks P fb g l ob =
     (if has_frame fb (Params_frame_size P)
      then (case pop_frame fb (Params_frame_size P) of (frame, fb') \<Rightarrow>
             (case gen_process_frame P g frame of (watermarked, g') \<Rightarrow>
               (case process l watermarked of (limited, l') \<Rightarrow>
                  process_blocks P fb' g' l' (push_samples ob limited))))
      else Some (fb, g, l, ob))"

definition impl_process_frame ::
    "Params \<Rightarrow> Impl \<Rightarrow> real list \<Rightarrow> nat \<Rightarrow> (real list \<times> Impl) option" where
  "impl_process_frame P impl input_samples frame_size =
     (if \<not> initialized impl then Some (input_samples, impl)
      else (case (frame_buffer impl, wm_gen impl, limiter impl, output_buffer impl) of
              (Some fb, Some g, Some l, Some ob) \<Rightarrow>
                (case process_blocks P (push_samples fb input_samples) g l ob of
                   None \<Rightarrow> None
                 | Some (fb', g', l', ob') \<Rightarrow>
                     (if has_frame ob' frame_size
                      then (case pop_frame ob' frame_size of (out, ob'') \<Rightarrow>
                              Some (out, impl\<lparr>frame_buffer := Some fb', wm_gen := Some g',
                                               limiter := Some l', output_buffer := Some ob''\<rparr>))
                      else Some (replicate (length input_samples) 0,
                                 impl\<lparr>frame_buffer := Some fb', wm_gen := Some g',
                                       limiter := Some l', output_buffer := Some ob'\<rparr>)))
            | _ \<Rightarrow> None))"

definition impl_reset :: "Impl \<Rightarrow> Impl" where
  "impl_reset impl =
     impl\<lparr>frame_buffer := map_option clear (frame_buffer impl),
          output_buffer := map_option clear (output_buffer impl),
          wm_gen := map_option gen_reset (wm_gen impl)\<rparr>"

text \<open>\<^verbatim>\<open>class RealtimeWatermarker\<close>: the handle, and its \<^verbatim>\<open>ProcessFrame\<close>.\<close>

record RealtimeWatermarker =
  pImpl :: "Impl option"

definition RealtimeWatermarker_new :: "Config \<Rightarrow> string \<Rightarrow> RealtimeWatermarker option" where
  "RealtimeWatermarker_new cfg message_hex =
     map_option (\<lambda>impl. \<lparr>pImpl = Some impl\<rparr>) (Impl_new cfg message_hex)"

definition ProcessFrame ::
    "Params \<Rightarrow> RealtimeWatermarker \<Rightarrow> real list \<Rightarrow> nat \<Rightarrow> (real list \<times> RealtimeWatermarker) option" where
  "ProcessFrame P w input_samples frame_size =
     (case pImpl w of
        None \<Rightarrow> Some (input_samples, w)
      | Some impl \<Rightarrow>
          if length input_samples \<noteq> size_t_mul frame_size (size_t_of_int (Config.channels (config impl)))
          then Some (input_samples, w)
          else map_option (\<lambda>(out, impl'). (out, w\<lparr>pImpl := Some impl'\<rparr>))
                 (impl_process_frame P impl input_samples frame_size))"

subsection \<open>Properties of the embedder\<close>

text \<open>
  Claim C7. A call of \<^verbatim>\<open>ProcessFrame\<close> whose input length differs from
  \<^verbatim>\<open>frame_size * channels\<close> (the product as the source computes it, in \<^verbatim>\<open>size_t\<close>)
  returns the input as it is and leaves the whole watermarker, hence both frame buffers,
  \<^verbatim>\<open>frame_count\<close> and the limiter's histories, as it was.
\<close>

theorem ProcessFrame_size_mismatch:
  assumes "pImpl w = Some impl"
    and "length input_samples \<noteq> size_t_mul frame_size (size_t_of_int (Config.channels (config impl)))"
  shows "ProcessFrame P w input_samples frame_size = Some (input_samples, w)"
  using assms by (simp add: ProcessFrame_def)

theorem ProcessFrame_size_mismatch_witness:
  "map_option
     (\<lambda>w. pImpl w \<noteq> None \<and>
          ProcessFrame \<lparr>Params_frame_size = 1024, Params_frames_per_bit = 2\<rparr> w
            [0.5, 0.25, 0.125] 2 = Some ([0.5, 0.25, 0.125], w))
     (RealtimeWatermarker_new
        \<lparr>Config.sample_rate = 44100, Config.channels = 2, Config.strength = 0.004, key = []\<rparr>
        ''48'')
   = Some True"
proof -
  let ?cfg = "\<lparr>Config.sample_rate = 44100, Config.channels = 2, Config.strength = 0.004, key = []\<rparr>"
  obtain w impl where new: "RealtimeWatermarker_new ?cfg ''48'' = Some w"
    and impl: "pImpl w = Some impl" and cfg: "config impl = ?cfg"
    by (simp add: RealtimeWatermarker_new_def Impl_new_def parse_payload_def stoi16_def
        skip_sign_def skip_hex_prefix_def isxdigit_def isspace_def xdigit_value_def
        byte_bits_def Limiter_new_def Let_def)
  have "length [0.5, 0.25, 0.125 :: real] \<noteq> size_t_mul 2 (size_t_of_int (Config.channels (config impl)))"
    by (simp add: cfg size_t_mul_def size_t_of_int_def)
  from ProcessFrame_size_mismatch
         [OF impl this, of "\<lparr>Params_frame_size = 1024, Params_frames_per_bit = 2\<rparr>"]
       new impl
  show ?thesis
    by simp
qed

text \<open>
  A call with the right length does change the state: the two samples are queued, and the
  call answers silence as long as no block is complete.
\<close>

lemma ProcessFrame_match_example:
  "map_option
     (\<lambda>w. map_option (\<lambda>(out, w'). (out, map_option frame_buffer (pImpl w')))
            (ProcessFrame \<lparr>Params_frame_size = 1024, Params_frames_per_bit = 2\<rparr> w [0.5, 0.25] 1))
     (RealtimeWatermarker_new
        \<lparr>Config.sample_rate = 44100, Config.channels = 2, Config.strength = 0.004, key = []\<rparr>
        ''48'')
   = Some (Some ([0, 0], Some (Some \<lparr>FrameBuffer.buffer = [0.5, 0.25], channels = 2\<rparr>)))"
  by (simp add: RealtimeWatermarker_new_def Impl_new_def parse_payload_def stoi16_def
        skip_sign_def skip_hex_prefix_def isxdigit_def isspace_def xdigit_value_def
        byte_bits_def Limiter_new_def Let_def ProcessFrame_def impl_process_frame_def
        size_t_mul_def size_t_of_int_def FrameBuffer_new_def push_samples_def
        process_blocks.simps has_frame_def samples_needed_def SimpleWatermarkGen_new_def)

section \<open>The detector\<close>

text \<open>
  \<^verbatim>\<open>class RealtimeDetector::Impl\<close> of the library's full version (the other copy of
  \<^verbatim>\<open>audiowmark_realtime.cc\<close> holds a placeholder whose \<^verbatim>\<open>GetDetectionResult\<close> always
  answers false). The FFT analyser is left out of the record: \<^verbatim>\<open>FFTAnalyzer::run_fft\<close>
  is not among the sources, and is a parameter \<open>run_fft\<close> of every function that calls it.
\<close>

record DetectorImpl =
  config :: Config
  frame_buffer :: FrameBuffer
  detection_scores :: "real list list"
  detected_bits :: "int list"
  frames_processed :: nat
  detection_window_frames :: nat
  initialized :: bool
  confidence_threshold :: real

definition DetectorImpl_new :: "Config \<Rightarrow> DetectorImpl" where
  "DetectorImpl_new cfg =
     \<lparr>config = cfg, frame_buffer = FrameBuffer_new (Config.channels cfg),
      detection_scores = replicate 2 (replicate 100 0), detected_bits = [],
      frames_processed = 0, detection_window_frames = 100, initialized = True,
      confidence_threshold = 0.7\<rparr>"

text \<open>
  \<^verbatim>\<open>analyze_frame_for_watermark\<close>. \<^verbatim>\<open>static_cast<int>\<close> truncates toward zero;
  \<^verbatim>\<open>std::abs\<close> of a complex number is \<^const>\<open>cmod\<close>. A negative bin would index
  before the vector: the result is \<open>None\<close> then. The constant \<^verbatim>\<open>1e-10\<close> is \<open>1 / 10 ^ 10\<close>.
\<close>

definition static_cast_int :: "real \<Rightarrow> int" where
  "static_cast_int x = (if 0 \<le> x then \<lfloor>x\<rfloor> else \<lceil>x\<rceil>)"

definition set_score :: "real list list \<Rightarrow> nat \<Rightarrow> nat \<Rightarrow> real \<Rightarrow> real list list" where
  "set_score scores b i v = scores[b := (scores ! b)[i := v]]"

definition analyze_frame_for_watermark ::
    "(real list \<Rightarrow> complex list list) \<Rightarrow> DetectorImpl \<Rightarrow> real list \<Rightarrow> DetectorImpl option" where
  "analyze_frame_for_watermark run_fft d frame =
     (let fft_result = run_fft frame in
      if fft_result = [] \<or> hd fft_result = [] then Some d
      else (let fft_size = int (length (hd fft_result));
                freq_resolution =
                  real_of_int (Config.sample_rate (config d)) / (2 * real_of_int fft_size);
                bin_1000hz = static_cast_int (1000 / freq_resolution);
                bin_1500hz = static_cast_int (1500 / freq_resolution)
            in if bin_1000hz < fft_size \<and> bin_1500hz < fft_size
               then (if bin_1000hz < 0 \<or> bin_1500hz < 0 then None
                     else (let mag_1000 = cmod (hd fft_result ! nat bin_1000hz);
                               mag_1500 = cmod (hd fft_result ! nat bin_1500hz);
                               score_index = frames_processed d mod detection_window_frames d;
                               scores = detection_scores d
                           in if mag_1500 > mag_1000 * 1.2
                              then Some (d\<lparr>detection_scores :=
                                     set_score (set_score scores 1 score_index
                                       (mag_1500 / (mag_1000 + 1 / 10 ^ 10))) 0 score_index 0\<rparr>)
                              else if mag_1000 > mag_1500 * 1.2
                              then Some (d\<lparr>detection_scores :=
                                     set_score (set_score scores 0 score_index
                                       (mag_1000 / (mag_1500 + 1 / 10 ^ 10))) 1 score_index 0\<rparr>)
                              else Some (d\<lparr>detection_scores :=
                                     set_score (set_score scores 0 score_index 0) 1 score_index 0\<rparr>)))
               else Some d))"

text \<open>
  \<open>detect_block\<close> is the body of the loop of \<^verbatim>\<open>Impl::process_frame\<close> after the pop:
  analyse the block, then count it. \<open>detect_blocks\<close> is the loop, \<open>None\<close> when it does
  not return.
\<close>

definition detect_block ::
    "(real list \<Rightarrow> complex list list) \<Rightarrow> DetectorImpl \<Rightarrow> real list \<Rightarrow> DetectorImpl option" where
  "detect_block run_fft d frame =
     map_option (\<lambda>d'. d'\<lparr>frames_processed := frames_processed d' + 1\<rparr>)
       (analyze_frame_for_watermark run_fft d frame)"

partial_function (option) detect_blocks ::
    "Params \<Rightarrow> (real list \<Rightarrow> complex list list) \<Rightarrow> DetectorImpl \<Rightarrow> DetectorImpl option" where
  "detect_blocks P run_fft d =
     (if has_frame (frame_buffer d) (Params_frame_size P)
      then (case pop_frame (frame_buffer d) (Params_frame_size P) of (frame, fb') \<Rightarrow>
              (case detect_block run_fft (d\<lparr>frame_buffer := fb'\<rparr>) frame of
                 None \<Rightarrow> None
               | Some d' \<Rightarrow> detect_blocks P run_fft d'))
      else Some d)"

definition detector_process_frame ::
    "Params \<Rightarrow> (real list \<Rightarrow> complex list list) \<Rightarrow> DetectorImpl \<Rightarrow> real list \<Rightarrow> nat
      \<Rightarrow> DetectorImpl option" where
  "detector_process_frame P run_fft d input_samples frame_size =
     (if \<not> initialized d
         \<or> length input_samples \<noteq> size_t_mul frame_size (size_t_of_int (Config.channels (config d)))
      then Some d
      else detect_blocks P run_fft (d\<lparr>frame_buffer := push_samples (frame_buffer d) input_samples\<rparr>))"

text \<open>
  \<^verbatim>\<open>get_detection_result\<close> writes its two reference parameters: the function takes their
  values before the call and returns the returned flag with their values after it.
\<close>

definition get_detection_result :: "DetectorImpl \<Rightarrow> string \<Rightarrow> real \<Rightarrow> bool \<times> string \<times> real" where
  "get_detection_result d detected_message confidence =
     (if frames_processed d < detection_window_frames d div 2 then (False, detected_message, 0)
      else (let avg_score_0 =
                  (\<Sum>i\<leftarrow>[0..<detection_window_frames d]. detection_scores d ! 0 ! i)
                    / real (detection_window_frames d);
                avg_score_1 =
                  (\<Sum>i\<leftarrow>[0..<detection_window_frames d]. detection_scores d ! 1 ! i)
                    / real (detection_window_frames d);
                total_score = avg_score_0 + avg_score_1;
                confidence' = total_score / real (detection_window_frames d)
            in if confidence' > confidence_threshold d
               then (if avg_score_1 > avg_score_0 * 1.5
                     then (True, ''48656c6c6f20576f726c6421'', confidence')
                     else if avg_score_0 > avg_score_1 * 1.5
                     then (True, ''54657374'', confidence')
                     else (True, ''556e6b6e6f776e'', confidence'))
               else (False, detected_message, confidence')))"

definition detector_reset :: "DetectorImpl \<Rightarrow> DetectorImpl" where
  "detector_reset d =
     d\<lparr>frames_processed := 0, frame_buffer := clear (frame_buffer d),
       detection_scores := map (\<lambda>scores. map (\<lambda>_. 0) scores) (detection_scores d)\<rparr>"

text \<open>\<^verbatim>\<open>class RealtimeDetector\<close>: the handle, delegating to the implementation.\<close>

record RealtimeDetector =
  pImpl :: "DetectorImpl option"

definition RealtimeDetector_new :: "Config \<Rightarrow> RealtimeDetector" where
  "RealtimeDetector_new cfg = \<lparr>pImpl = Some (DetectorImpl_new cfg)\<rparr>"

definition GetDetectionResult :: "RealtimeDetector \<Rightarrow> string \<Rightarrow> real \<Rightarrow> bool \<times> string \<times> real" where
  "GetDetectionResult det detected_message confidence =
     (case pImpl det of
        Some impl \<Rightarrow> get_detection_result impl detected_message confidence
      | None \<Rightarrow> (False, detected_message, confidence))"

definition Reset :: "RealtimeDetector \<Rightarrow> RealtimeDetector" where
  "Reset det = det\<lparr>pImpl := map_option detector_reset (pImpl det)\<rparr>"

definition detector_ProcessFrame ::
    "Params \<Rightarrow> (real list \<Rightarrow> complex list list) \<Rightarrow> RealtimeDetector \<Rightarrow> real list \<Rightarrow> nat
      \<Rightarrow> RealtimeDetector option" where
  "detector_ProcessFrame P run_fft det input_samples frame_size =
     (case pImpl det of
        Some impl \<Rightarrow>
          map_option (\<lambda>impl'. det\<lparr>pImpl := Some impl'\<rparr>)
            (detector_process_frame P run_fft impl input_samples frame_size)
      | None \<Rightarrow> Some det)"


text \<open>A run of the loop body over the blocks the loop pops, in order.\<close>

fun detect_block_list ::
    "(real list \<Rightarrow> complex list list) \<Rightarrow> DetectorImpl \<Rightarrow> real list list \<Rightarrow> DetectorImpl option" where
  "detect_block_list run_fft d [] = Some d"
| "detect_block_list run_fft d (frame # frames) =
     (case detect_block run_fft d frame of
        None \<Rightarrow> None
      | Some d' \<Rightarrow> detect_block_list run_fft d' frames)"

text \<open>
  A concrete stream for the evaluations below: a block of 1024 samples of a 1.5 kHz sine
  at 44100 Hz, and an analyser that stands for the absent \<^verbatim>\<open>run_fft\<close> on it. The analyser
  answers that block with a spectrum of 513 bins whose only component is in bin 34, the
  bin \<^verbatim>\<open>analyze_frame_for_watermark\<close> reads for 1.5 kHz (it reads bin 23 for 1 kHz); it
  has no answer for any other block. \<open>after_tone_blocks n\<close> is the detector after \<open>n\<close>
  such blocks.
\<close>

definition tone_block :: "real list" where
  "tone_block = map (\<lambda>n. sin (2 * pi * 1500 * real n / 44100)) [0..<1024]"

definition tone_analysis :: "real list \<Rightarrow> complex list list" where
  "tone_analysis frame = (if frame = tone_block then [(replicate 513 0)[34 := 1]] else [])"

definition cfg_44100 :: Config where
  "cfg_44100 = \<lparr>Config.sample_rate = 44100, Config.channels = 1, Config.strength = 0.004, key = []\<rparr>"

definition after_tone_blocks :: "nat \<Rightarrow> DetectorImpl" where
  "after_tone_blocks n =
     (DetectorImpl_new cfg_44100)
       \<lparr>detection_scores := [replicate 100 0, replicate n (10 ^ 10) @ replicate (100 - n) 0],
        frames_processed := n\<rparr>"

subsection \<open>Properties of the detector\<close>

lemma analyze_keeps:
  "analyze_frame_for_watermark run_fft d frame = Some d' \<Longrightarrow>
   frames_processed d' = frames_processed d \<and>
   detection_window_frames d' = detection_window_frames d"
  by (auto simp: analyze_frame_for_watermark_def Let_def split: if_splits)

lemma detect_block_counts:
  "detect_block run_fft d frame = Some d' \<Longrightarrow>
   frames_processed d' = frames_processed d + 1 \<and>
   detection_window_frames d' = detection_window_frames d"
  by (auto simp: detect_block_def dest: analyze_keeps)

lemma detect_block_list_counts:
  "detect_block_list run_fft d frames = Some d' \<Longrightarrow>
   frames_processed d' = frames_processed d + length frames \<and>
   detection_window_frames d' = detection_window_frames d"
proof (induction frames arbitrary: d)
  case Nil
  then show ?case by simp
next
  case (Cons frame frames)
  then obtain d1 where step: "detect_block run_fft d frame = Some d1"
    and rest: "detect_block_list run_fft d1 frames = Some d'"
    by (auto split: option.splits)
  from detect_block_counts [OF step] Cons.IH [OF rest] show ?case
    by simp
qed

lemma get_detection_result_early:
  "frames_processed d < detection_window_frames d div 2 \<Longrightarrow>
   get_detection_result d detected_message confidence = (False, detected_message, 0)"
  by (simp add: get_detection_result_def)

lemma replicate_update_same: "(replicate n x)[i := x] = replicate n x"
proof (cases "i < n")
  case True
  then show ?thesis
    using list_update_id [of "replicate n x" i] by simp
next
  case False
  then show ?thesis
    by (simp add: list_update_beyond)
qed

lemma tone_scores_update:
  "k < 100 \<Longrightarrow>
   (replicate k v @ replicate (100 - k) (0::real))[k := v]
     = replicate (Suc k) v @ replicate (100 - Suc k) 0"
proof -
  assume "k < 100"
  then have "replicate (100 - k) (0::real) = 0 # replicate (100 - Suc k) 0"
    by (metis Suc_diff_Suc replicate_Suc)
  then show ?thesis
    by (simp add: list_update_append replicate_append_same)
qed

lemma tone_block_step:
  assumes "k < 100"
  shows "detect_block tone_analysis (after_tone_blocks k) tone_block = Some (after_tone_blocks (Suc k))"
  using assms
  by (simp add: detect_block_def analyze_frame_for_watermark_def tone_analysis_def
      after_tone_blocks_def DetectorImpl_new_def cfg_44100_def static_cast_int_def Let_def
      set_score_def replicate_update_same tone_scores_update)

lemma tone_blocks:
  "k + n \<le> 100 \<Longrightarrow>
   detect_block_list tone_analysis (after_tone_blocks k) (replicate n tone_block)
     = Some (after_tone_blocks (k + n))"
proof (induction n arbitrary: k)
  case 0
  then show ?case by simp
next
  case (Suc n)
  then have "k < 100" and "Suc k + n \<le> 100"
    by simp_all
  from tone_block_step [OF this(1)] Suc.IH [OF this(2)] show ?case
    by simp
qed

lemma reset_new: "detector_reset (DetectorImpl_new cfg_44100) = after_tone_blocks 0"
  by (simp add: detector_reset_def DetectorImpl_new_def after_tone_blocks_def clear_def
      FrameBuffer_new_def numeral_2_eq_2)

lemma sum_scores:
  "n \<le> 100 \<Longrightarrow>
   (\<Sum>i\<leftarrow>[0..<100]. (replicate n v @ replicate (100 - n) (0::real)) ! i) = real n * v"
proof -
  assume "n \<le> 100"
  then have len: "length (replicate n v @ replicate (100 - n) (0::real)) = 100"
    by simp
  have "(\<Sum>i\<leftarrow>[0..<100]. (replicate n v @ replicate (100 - n) (0::real)) ! i)
          = sum_list (replicate n v @ replicate (100 - n) 0)"
    using map_nth [of "replicate n v @ replicate (100 - n) (0::real)"] len by simp
  then show ?thesis
    by (simp add: sum_list_replicate)
qed

lemma sum_zero: "(\<Sum>i\<leftarrow>[0..<100]. replicate 100 (0::real) ! i) = 0"
  using sum_scores [of 0 0] by simp

lemma tone_result:
  assumes "50 \<le> n" and "n \<le> 100"
  shows "get_detection_result (after_tone_blocks n) detected_message confidence
           = (True, ''48656c6c6f20576f726c6421'', real n * 10 ^ 6)"
proof -
  have "(70::real) \<le> real n * 10 ^ 6"
    using assms(1) by simp
  then show ?thesis
    using assms
    by (simp add: get_detection_result_def after_tone_blocks_def DetectorImpl_new_def
        sum_scores sum_zero)
qed


lemma get_detection_result_canned:
  "fst (get_detection_result d detected_message confidence) \<Longrightarrow>
   fst (snd (get_detection_result d detected_message confidence))
     \<in> {''48656c6c6f20576f726c6421'', ''54657374'', ''556e6b6e6f776e''}"
  by (auto simp: get_detection_result_def Let_def split: if_splits)

lemma detect_block_frame_buffer:
  "detect_block run_fft (d\<lparr>frame_buffer := fb\<rparr>) frame
     = map_option (\<lambda>d'. d'\<lparr>frame_buffer := fb\<rparr>) (detect_block run_fft d frame)"
  by (simp add: detect_block_def analyze_frame_for_watermark_def Let_def)

lemma detect_blocks_list:
  assumes "0 < samples_needed (frame_buffer d) (Params_frame_size P)"
  shows "detect_blocks P run_fft d =
           (case pop_all (frame_buffer d) (Params_frame_size P) of
              None \<Rightarrow> None
            | Some (frames, fb') \<Rightarrow> detect_block_list run_fft (d\<lparr>frame_buffer := fb'\<rparr>) frames)"
  using assms
proof (induction "length (FrameBuffer.buffer (frame_buffer d))" arbitrary: d rule: less_induct)
  case less
  let ?n = "Params_frame_size P"
  let ?k = "samples_needed (frame_buffer d) ?n"
  show ?case
  proof (cases "has_frame (frame_buffer d) ?n")
    case False
    then show ?thesis
      by (subst detect_blocks.simps) (simp add: pop_all_no_frame)
  next
    case True
    let ?fb1 = "(frame_buffer d)\<lparr>FrameBuffer.buffer := drop ?k (FrameBuffer.buffer (frame_buffer d))\<rparr>"
    let ?frame = "take ?k (FrameBuffer.buffer (frame_buffer d))"
    have pos1: "0 < samples_needed ?fb1 ?n"
      using less.prems by simp
    obtain frames fb' where rest: "pop_all ?fb1 ?n = Some (frames, fb')"
      using pop_all_total [OF pos1] by blast
    have all: "pop_all (frame_buffer d) ?n = Some (?frame # frames, fb')"
      using pop_all_frame [OF True] rest by simp
    have unfold: "detect_blocks P run_fft d =
        (case detect_block run_fft (d\<lparr>frame_buffer := ?fb1\<rparr>) ?frame of
           None \<Rightarrow> None | Some d' \<Rightarrow> detect_blocks P run_fft d')"
      using True by (subst detect_blocks.simps) (simp add: pop_frame_def has_frame_def)
    show ?thesis
    proof (cases "detect_block run_fft d ?frame")
      case None
      then show ?thesis
        using unfold all by (simp add: detect_block_frame_buffer)
    next
      case (Some e)
      let ?d' = "e\<lparr>frame_buffer := ?fb1\<rparr>"
      have shorter: "length (FrameBuffer.buffer (frame_buffer ?d')) < length (FrameBuffer.buffer (frame_buffer d))"
        using True less.prems by (simp add: has_frame_def)
      have "detect_blocks P run_fft ?d' =
          (case pop_all (frame_buffer ?d') ?n of
             None \<Rightarrow> None
           | Some (frames, fb') \<Rightarrow> detect_block_list run_fft (?d'\<lparr>frame_buffer := fb'\<rparr>) frames)"
        using less.hyps [OF shorter] pos1 by simp
      then have "detect_blocks P run_fft ?d' = detect_block_list run_fft (e\<lparr>frame_buffer := fb'\<rparr>) frames"
        using rest by simp
      then show ?thesis
        using unfold all Some by (simp add: detect_block_frame_buffer)
    qed
  qed
qed

lemma GetDetectionResult_impl:
  "GetDetectionResult \<lparr>pImpl = Some d\<rparr> detected_message confidence
     = get_detection_result d detected_message confidence"
  "Reset \<lparr>pImpl = Some d\<rparr> = \<lparr>pImpl = Some (detector_reset d)\<rparr>"
  by (simp_all add: GetDetectionResult_def Reset_def)

text \<open>
  Claim C9, as amended. Whatever the detector state \<open>d\<close> before \<^verbatim>\<open>Reset\<close>, after the reset
  and any blocks processed since, fewer than \<^verbatim>\<open>detection_window_frames / 2\<close> of them, the
  block counter is the number of those blocks and \<^verbatim>\<open>get_detection_result\<close> answers false,
  leaves the message as it was and sets the confidence to \<open>0\<close>. With no block at all this is
  the answer right after \<^verbatim>\<open>Reset\<close>.
\<close>

theorem absent_after_Reset:
  assumes "detect_block_list run_fft (detector_reset d) frames = Some d'"
    and "length frames < detection_window_frames d div 2"
  shows "frames_processed d' = length frames \<and>
         get_detection_result d' detected_message confidence = (False, detected_message, 0)"
proof -
  have "frames_processed d' = length frames"
    and "detection_window_frames d' = detection_window_frames d"
    using detect_block_list_counts [OF assms(1)] by (simp_all add: detector_reset_def)
  then show ?thesis
    using assms(2) by (simp add: get_detection_result_early)
qed

theorem absent_after_Reset_witness:
  "detect_block_list tone_analysis (detector_reset (after_tone_blocks 100)) (replicate 49 tone_block)
     = Some (after_tone_blocks 49) \<and>
   length (replicate 49 tone_block) < detection_window_frames (after_tone_blocks 100) div 2 \<and>
   frames_processed (after_tone_blocks 49) = 49 \<and>
   get_detection_result (after_tone_blocks 49) ''abc'' 1 = (False, ''abc'', 0)"
proof -
  have r: "detector_reset (after_tone_blocks 100) = after_tone_blocks 0"
    by (simp add: detector_reset_def after_tone_blocks_def DetectorImpl_new_def clear_def
        FrameBuffer_new_def)
  have run: "detect_block_list tone_analysis (detector_reset (after_tone_blocks 100))
               (replicate 49 tone_block) = Some (after_tone_blocks 49)"
    using tone_blocks [of 0 49] by (simp add: r)
  have short: "length (replicate 49 tone_block) < detection_window_frames (after_tone_blocks 100) div 2"
    by (simp add: after_tone_blocks_def DetectorImpl_new_def)
  from absent_after_Reset [OF run short, of "''abc''" 1] run short show ?thesis
    by simp
qed

text \<open>
  Claim C9 as stated fails at the last of the "next \<^verbatim>\<open>window_size / 2\<close> blocks": after
  \<^verbatim>\<open>Reset\<close> and 50 blocks the counter is 50, the guard \<^verbatim>\<open>frames_processed < 50\<close> is false,
  and the 50 scores written so far are enough for a detection.
\<close>

theorem absent_after_Reset_counterexample:
  "detect_block_list tone_analysis (detector_reset (DetectorImpl_new cfg_44100))
     (replicate 50 tone_block) = Some (after_tone_blocks 50) \<and>
   detection_window_frames (after_tone_blocks 50) div 2 = 50 \<and>
   get_detection_result (after_tone_blocks 50) [] 0
     = (True, ''48656c6c6f20576f726c6421'', 50000000)"
proof -
  have run: "detect_block_list tone_analysis (detector_reset (DetectorImpl_new cfg_44100))
               (replicate 50 tone_block) = Some (after_tone_blocks 50)"
    using tone_blocks [of 0 50] by (simp add: reset_new)
  have window: "detection_window_frames (after_tone_blocks 50) div 2 = 50"
    by (simp add: after_tone_blocks_def DetectorImpl_new_def)
  have result: "get_detection_result (after_tone_blocks 50) [] 0
                  = (True, ''48656c6c6f20576f726c6421'', 50000000)"
    using tone_result [of 50 "[]" 0] by simp
  from run window result show ?thesis
    by (intro conjI)
qed

text \<open>
  Claim C1 fails on the code. After 100 blocks that all favour bit 1 (a majority decode
  of that evidence is all ones, bytes \<^verbatim>\<open>0xff\<close>), the detector reports the hex of
  \<^verbatim>\<open>Hello World!\<close>: one of the three fixed strings of \<open>get_detection_result_canned\<close>,
  chosen by comparing the two averages only. The confidence, \<open>10 ^ 8\<close>, is not within
  \<open>[0, 1]\<close> either.
\<close>

theorem detected_message_canned:
  "detect_block_list tone_analysis (DetectorImpl_new cfg_44100) (replicate 100 tone_block)
     = Some (after_tone_blocks 100) \<and>
   get_detection_result (after_tone_blocks 100) [] 0
     = (True, ''48656c6c6f20576f726c6421'', 100000000)"
proof -
  have "DetectorImpl_new cfg_44100 = after_tone_blocks 0"
    by (simp add: after_tone_blocks_def DetectorImpl_new_def numeral_2_eq_2)
  then show ?thesis
    using tone_blocks [of 0 100] tone_result [of 100 "[]" 0] by simp
qed

text \<open>
  The three fixed strings at work: the lemma \<open>get_detection_result_canned\<close> applied to
  the detector after 100 tone blocks.
\<close>

theorem get_detection_result_canned_witness:
  "fst (get_detection_result (after_tone_blocks 100) [] 0) \<and>
   fst (snd (get_detection_result (after_tone_blocks 100) [] 0))
     \<in> {''48656c6c6f20576f726c6421'', ''54657374'', ''556e6b6e6f776e''}"
proof -
  have "fst (get_detection_result (after_tone_blocks 100) [] 0)"
    using tone_result [of 100 "[]" 0] by simp
  from this get_detection_result_canned [OF this] show ?thesis
    by (intro conjI)
qed

end
